theory Spec2Isabelle
  imports Main "HOL-Library.Sublist"
begin

section \<open>The record codec of dmrgo\<close>

text \<open>
  Go strings are byte sequences; they are modelled as \<^typ>\<open>string\<close>, a list of 8-bit
  characters. A \<open>bufio.Reader\<close> over an in-memory stream is modelled by the bytes that
  are still unread; the only read error of such a reader is \<open>io.EOF\<close>.
\<close>

record KeyValue =
  ReduceKey :: string
  SortKey :: string
  Value :: string

datatype go_error = EOF | EscapeError string

abbreviation TAB :: char where "TAB \<equiv> CHR 0x09"
abbreviation NL :: char where "NL \<equiv> CHR 0x0A"

text \<open>
  \<open>bufio.Reader.ReadString(delim)\<close>: the bytes up to and including the first \<open>delim\<close>;
  when the stream ends before a \<open>delim\<close> it returns what was read together with
  \<open>io.EOF\<close>. The third component is the reader afterwards.
\<close>

definition ReadString :: "char \<Rightarrow> string \<Rightarrow> string \<times> go_error option \<times> string" where
  "ReadString delim br =
     (if delim \<in> set br
      then (takeWhile (\<lambda>c. c \<noteq> delim) br @ [delim], None, tl (dropWhile (\<lambda>c. c \<noteq> delim) br))
      else (br, Some EOF, []))"

text \<open>\<open>strings.TrimRight(s, cutset)\<close>: drops every trailing byte that is in \<open>cutset\<close>.\<close>

definition TrimRight :: "string \<Rightarrow> string \<Rightarrow> string" where
  "TrimRight s cutset = rev (dropWhile (\<lambda>c. c \<in> set cutset) (rev s))"

text \<open>\<open>strings.SplitN(s, sep, 2)\<close> for a one-byte separator: split at the first \<open>sep\<close>.\<close>

definition SplitN2 :: "string \<Rightarrow> char \<Rightarrow> string list" where
  "SplitN2 s sep =
     (if sep \<in> set s
      then [takeWhile (\<lambda>c. c \<noteq> sep) s, tl (dropWhile (\<lambda>c. c \<noteq> sep) s)]
      else [s])"

subsection \<open>\<open>url.QueryUnescape\<close> of Go's standard library\<close>

definition ishex :: "char \<Rightarrow> bool" where
  "ishex c = (let n = (of_char c :: nat) in
     (48 \<le> n \<and> n \<le> 57) \<or> (97 \<le> n \<and> n \<le> 102) \<or> (65 \<le> n \<and> n \<le> 70))"

definition unhex :: "char \<Rightarrow> nat" where
  "unhex c = (let n = (of_char c :: nat) in
     if 48 \<le> n \<and> n \<le> 57 then n - 48
     else if 97 \<le> n \<and> n \<le> 102 then n - 97 + 10
     else if 65 \<le> n \<and> n \<le> 70 then n - 65 + 10
     else 0)"

text \<open>
  The first pass of \<open>unescape\<close>: every \<open>%\<close> must be followed by two hex digits; otherwise
  the result is an \<open>EscapeError\<close> carrying at most three bytes from the offending \<open>%\<close> on.
\<close>

fun unescape_check :: "string \<Rightarrow> go_error option" where
  "unescape_check [] = None"
| "unescape_check (c # cs) =
     (if c = CHR ''%''
      then (case cs of
              a # b # rest \<Rightarrow>
                if ishex a \<and> ishex b then unescape_check rest
                else Some (EscapeError (take 3 (c # cs)))
            | _ \<Rightarrow> Some (EscapeError (take 3 (c # cs))))
      else unescape_check cs)"

text \<open>
  The second pass, in query-component mode: \<open>%XY\<close> becomes the byte \<open>unhex X << 4 | unhex Y\<close>
  (below 256, since both digits are below 16), \<open>+\<close> becomes a space.
\<close>

fun unescape_decode :: "string \<Rightarrow> string" where
  "unescape_decode [] = []"
| "unescape_decode (c # cs) =
     (if c = CHR ''%''
      then (case cs of
              a # b # rest \<Rightarrow> char_of (unhex a * 16 + unhex b) # unescape_decode rest
            | _ \<Rightarrow> [])
      else if c = CHR ''+'' then CHR '' '' # unescape_decode cs
      else c # unescape_decode cs)"

definition QueryUnescape :: "string \<Rightarrow> go_error + string" where
  "QueryUnescape s =
     (case unescape_check s of
        Some e \<Rightarrow> Inl e
      | None \<Rightarrow> Inr (unescape_decode s))"

subsection \<open>The two line readers\<close>

definition readLineValue :: "string \<Rightarrow> (go_error + KeyValue) \<times> string" where
  "readLineValue br =
     (case ReadString NL br of
        (s, err, br') \<Rightarrow>
          (let s = TrimRight s [NL] in
           case err of
             Some e \<Rightarrow> (Inl e, br')
           | None \<Rightarrow> (Inr \<lparr>ReduceKey = [], SortKey = [], Value = s\<rparr>, br')))"

definition readLineKeyValue :: "string \<Rightarrow> (go_error + KeyValue) \<times> string" where
  "readLineKeyValue br =
     (case ReadString TAB br of
        (k, Some e, br1) \<Rightarrow> (Inl e, br1)
      | (k, None, br1) \<Rightarrow>
          (let k = TrimRight k [TAB];
               keys = SplitN2 k (CHR '','')
           in case QueryUnescape (keys ! 0) of
                Inl e \<Rightarrow> (Inl e, br1)
              | Inr reduceKey \<Rightarrow>
                  (case (if length keys = 2 then QueryUnescape (keys ! 1) else Inr [])
                   of Inl e \<Rightarrow> (Inl e, br1)
                    | Inr sortKey \<Rightarrow>
                        (case ReadString NL br1 of
                           (v, Some e, br2) \<Rightarrow> (Inl e, br2)
                         | (v, None, br2) \<Rightarrow>
                             (Inr \<lparr>ReduceKey = reduceKey, SortKey = sortKey,
                                   Value = TrimRight v [NL]\<rparr>, br2)))))"

subsection \<open>The encoder of the intermediate line format\<close>

text \<open>
  Modelled from the spec: \<open>encodeKeyValueLine\<close> is the writer of the partitioned emitter,
  whose source file is not part of the sources at hand. The spec says: percent-encode
  reduceKey and sortKey, join with comma (omit comma+sortKey if sortKey is empty), append
  tab, value, newline. Percent-encoding keeps the unreserved bytes (letters, digits,
  \<open>-\<close>, \<open>_\<close>, \<open>.\<close>, \<open>~\<close>) and writes every other byte as \<open>%\<close> and two upper-case hex digits.
\<close>

definition unreserved :: "char \<Rightarrow> bool" where
  "unreserved c = (let n = (of_char c :: nat) in
     (65 \<le> n \<and> n \<le> 90) \<or> (97 \<le> n \<and> n \<le> 122) \<or> (48 \<le> n \<and> n \<le> 57)
     \<or> c = CHR ''-'' \<or> c = CHR ''_'' \<or> c = CHR ''.'' \<or> c = CHR ''~'')"

definition hexdigit :: "nat \<Rightarrow> char" where
  "hexdigit n = ''0123456789ABCDEF'' ! n"

definition percent_encode_byte :: "char \<Rightarrow> string" where
  "percent_encode_byte c =
     (if unreserved c then [c]
      else [CHR ''%'', hexdigit ((of_char c :: nat) div 16), hexdigit ((of_char c :: nat) mod 16)])"

definition percent_encode :: "string \<Rightarrow> string" where
  "percent_encode s = concat (map percent_encode_byte s)"

definition encodeKeyValueLine :: "string \<Rightarrow> string \<Rightarrow> string \<Rightarrow> string" where
  "encodeKeyValueLine reduceKey sortKey v =
     percent_encode reduceKey
       @ (if sortKey = [] then [] else CHR '','' # percent_encode sortKey)
       @ [TAB] @ v @ [NL]"

text \<open>The bytes that the decoder treats literally and that do not end a field.\<close>

definition plain :: "char \<Rightarrow> bool" where
  "plain c = (c \<noteq> TAB \<and> c \<noteq> NL \<and> c \<noteq> CHR '','' \<and> c \<noteq> CHR ''+'')"

section \<open>The map driver\<close>

text \<open>
  \<open>mapper\<close> reads value lines until the reader returns an error and calls the job's
  \<open>Map("", value, emitter)\<close> for each line read. The job is user code; the model returns
  the calls made to it, in order, each as the pair of its key and value arguments.
\<close>

function mapper_loop :: "string \<Rightarrow> (string \<times> string) list \<Rightarrow> (string \<times> string) list" where
  "mapper_loop br calls =
     (case readLineValue br of
        (Inl err, br') \<Rightarrow> calls
      | (Inr kv, br') \<Rightarrow> mapper_loop br' (calls @ [([], Value kv)]))"
  by pat_completeness auto
termination
proof (relation "measure (\<lambda>(br, calls). length br)")
  fix br :: string and calls :: "(string \<times> string) list" and x1 br' kv
  assume a: "(x1, br') = readLineValue br" "x1 = Inr kv"
  then have "NL \<in> set br" and "br' = tl (dropWhile (\<lambda>c. c \<noteq> NL) br)"
    by (auto simp: readLineValue_def ReadString_def split: if_splits)
  moreover have "length (dropWhile (\<lambda>c. c \<noteq> NL) br) \<le> length br"
    by (rule length_dropWhile_le)
  moreover have "dropWhile (\<lambda>c. c \<noteq> NL) br \<noteq> []"
    using \<open>NL \<in> set br\<close> by (simp add: dropWhile_eq_Nil_conv)
  ultimately have "length br' < length br"
    by (cases "dropWhile (\<lambda>c. c \<noteq> NL) br") auto
  then show "((br', calls @ [([], Value kv)]), (br, calls)) \<in> measure (\<lambda>(br, calls). length br)"
    by simp
qed simp

declare mapper_loop.simps [simp del]

definition mapper :: "string \<Rightarrow> (string \<times> string) list" where
  "mapper r = mapper_loop r []"

section \<open>The reduce driver\<close>

text \<open>
  \<open>reducer\<close> is modelled in the driver's own program order. Channels are numbered in the
  order \<open>make\<close> creates them; the variables \<open>values\<close> and \<open>done\<close> hold \<open>None\<close> for a nil
  channel. The model returns how the driver ends and the trace of what it did:
  \<^item> \<open>Go rk sk c d\<close>: the \<open>go\<close> statement of a group, whose closure calls
    \<open>Reduce(mkv.ReduceKey, mkv.SortKey, values, emitter)\<close>; \<open>mkv\<close> is declared inside the
    loop body, so \<open>rk\<close> and \<open>sk\<close> are those of the record of this iteration, and \<open>c\<close>, \<open>d\<close> are
    the channels that \<open>values\<close> and \<open>done\<close> hold at the statement, made for the group just
    before it;
  \<^item> \<open>Send c v\<close>: \<open>values <- v\<close> on channel \<open>c\<close>;
  \<^item> \<open>Close c\<close>: \<open>close(values)\<close>;
  \<^item> \<open>Recv d\<close>: \<open>\<langle>-done\<close>, completed.
  Closing a nil channel panics; sending to or receiving from a nil channel blocks forever.
  This model is the driver alone: every send and every receive on a channel that is not
  nil is taken to complete, and the goroutines do not appear in it. It is exact where no
  goroutine exists (a stream without records) and it is what the driver of the
  step-by-step model further down follows; what the goroutines do, and what the program
  as a whole does, is said by that second model only.
\<close>

datatype event =
    Go string string nat nat
  | Send nat string
  | Close nat
  | Recv nat

datatype outcome = Returned | Panic string | Blocked

record rstate =
  currentReduceKey :: string
  values_chan :: "nat option"
  isFirstRun :: bool
  done_chan :: "nat option"
  fresh :: nat
  trace :: "event list"

definition close_values :: "rstate \<Rightarrow> (outcome \<times> event list) + rstate" where
  "close_values st =
     (case values_chan st of
        None \<Rightarrow> Inl (Panic ''close of nil channel'', trace st)
      | Some c \<Rightarrow> Inr (st\<lparr>trace := trace st @ [Close c]\<rparr>))"

definition await_done :: "rstate \<Rightarrow> (outcome \<times> event list) + rstate" where
  "await_done st =
     (case done_chan st of
        None \<Rightarrow> Inl (Blocked, trace st)
      | Some d \<Rightarrow> Inr (st\<lparr>trace := trace st @ [Recv d]\<rparr>))"

definition send_value :: "rstate \<Rightarrow> string \<Rightarrow> (outcome \<times> event list) + rstate" where
  "send_value st v =
     (case values_chan st of
        None \<Rightarrow> Inl (Blocked, trace st)
      | Some c \<Rightarrow> Inr (st\<lparr>trace := trace st @ [Send c v]\<rparr>))"

text \<open>\<open>close(values); \<langle>-done\<close>\<close>

definition close_group :: "rstate \<Rightarrow> (outcome \<times> event list) + rstate" where
  "close_group st =
     (case close_values st of
        Inl x \<Rightarrow> Inl x
      | Inr st1 \<Rightarrow> await_done st1)"

text \<open>The assignments and the \<open>go\<close> statement that start a group.\<close>

definition start_group :: "rstate \<Rightarrow> KeyValue \<Rightarrow> rstate" where
  "start_group st mkv =
     (let c = fresh st; d = fresh st + 1
      in st\<lparr>isFirstRun := False, values_chan := Some c, done_chan := Some d,
            fresh := fresh st + 2,
            trace := trace st @ [Go (ReduceKey mkv) (SortKey mkv) c d],
            currentReduceKey := ReduceKey mkv\<rparr>)"

text \<open>The loop body, for the record \<open>mkv\<close> just read.\<close>

definition reducer_body :: "rstate \<Rightarrow> KeyValue \<Rightarrow> (outcome \<times> event list) + rstate" where
  "reducer_body st mkv =
     (case (if currentReduceKey st \<noteq> ReduceKey mkv \<or> isFirstRun st
            then (case (if \<not> isFirstRun st then close_group st else Inr st) of
                    Inl x \<Rightarrow> Inl x
                  | Inr st1 \<Rightarrow> Inr (start_group st1 mkv))
            else Inr st)
      of Inl x \<Rightarrow> Inl x
       | Inr st2 \<Rightarrow> send_value st2 (Value mkv))"

text \<open>The statements after the loop: \<open>close(values); \<langle>-done\<close>, with no guard.\<close>

definition reducer_exit :: "rstate \<Rightarrow> outcome \<times> event list" where
  "reducer_exit st =
     (case close_group st of
        Inl x \<Rightarrow> x
      | Inr st1 \<Rightarrow> (Returned, trace st1))"

function reducer_loop :: "string \<Rightarrow> rstate \<Rightarrow> outcome \<times> event list" where
  "reducer_loop br st =
     (case readLineKeyValue br of
        (Inl err, br') \<Rightarrow> reducer_exit st
      | (Inr mkv, br') \<Rightarrow>
          (case reducer_body st mkv of
             Inl x \<Rightarrow> x
           | Inr st' \<Rightarrow> reducer_loop br' st'))"
  by pat_completeness auto
termination
proof (relation "measure (\<lambda>(br, st). length br)")
  fix br :: string and st :: rstate and x1 br' mkv st'
  assume a: "(x1, br') = readLineKeyValue br" "x1 = Inr mkv"
  have shrink: "length r < length b" if "ReadString d b = (s, None, r)" for d b s r
  proof -
    from that have "d \<in> set b" and r: "r = tl (dropWhile (\<lambda>c. c \<noteq> d) b)"
      by (auto simp: ReadString_def split: if_splits)
    have "dropWhile (\<lambda>c. c \<noteq> d) b \<noteq> []"
      using \<open>d \<in> set b\<close> by (simp add: dropWhile_eq_Nil_conv)
    moreover have "length (dropWhile (\<lambda>c. c \<noteq> d) b) \<le> length b"
      by (rule length_dropWhile_le)
    ultimately show ?thesis
      unfolding r by (cases "dropWhile (\<lambda>c. c \<noteq> d) b") auto
  qed
  from a obtain k br1 v where "ReadString TAB br = (k, None, br1)" "ReadString NL br1 = (v, None, br')"
    by (auto simp: readLineKeyValue_def Let_def split: prod.splits option.splits sum.splits if_splits)
  then have "length br' < length br"
    using shrink [of TAB br k br1] shrink [of NL br1 v br'] by simp
  then show "((br', st'), (br, st)) \<in> measure (\<lambda>(br, st). length br)"
    by simp
qed simp

declare reducer_loop.simps [simp del]

definition reducer_init :: rstate where
  "reducer_init = \<lparr>currentReduceKey = [], values_chan = None, isFirstRun = True,
                    done_chan = None, fresh = 0, trace = []\<rparr>"

definition reducer :: "string \<Rightarrow> outcome \<times> event list" where
  "reducer r = reducer_loop r reducer_init"

subsection \<open>The records of a stream, and what a trace shows\<close>

text \<open>
  \<open>records\<close> are the records that successive calls of \<open>readLineKeyValue\<close> decode from a
  stream, up to the first call that returns an error: the records the loop of \<open>reducer\<close>
  sees.
\<close>

function records :: "string \<Rightarrow> KeyValue list" where
  "records br =
     (case readLineKeyValue br of
        (Inl err, br') \<Rightarrow> []
      | (Inr kv, br') \<Rightarrow> kv # records br')"
  by pat_completeness auto
termination
proof (relation "measure length")
  fix br :: string and x1 br' kv
  assume a: "(x1, br') = readLineKeyValue br" "x1 = Inr kv"
  have shrink: "length r < length b" if "ReadString d b = (s, None, r)" for d b s r
  proof -
    from that have "d \<in> set b" and r: "r = tl (dropWhile (\<lambda>c. c \<noteq> d) b)"
      by (auto simp: ReadString_def split: if_splits)
    have "dropWhile (\<lambda>c. c \<noteq> d) b \<noteq> []"
      using \<open>d \<in> set b\<close> by (simp add: dropWhile_eq_Nil_conv)
    moreover have "length (dropWhile (\<lambda>c. c \<noteq> d) b) \<le> length b"
      by (rule length_dropWhile_le)
    ultimately show ?thesis
      unfolding r by (cases "dropWhile (\<lambda>c. c \<noteq> d) b") auto
  qed
  from a obtain k br1 v where "ReadString TAB br = (k, None, br1)" "ReadString NL br1 = (v, None, br')"
    by (auto simp: readLineKeyValue_def Let_def split: prod.splits option.splits sum.splits if_splits)
  then have "length br' < length br"
    using shrink [of TAB br k br1] shrink [of NL br1 v br'] by simp
  then show "(br', br) \<in> measure length"
    by simp
qed simp

declare records.simps [simp del]

text \<open>The loop of \<open>reducer\<close> over records already decoded.\<close>

fun reducer_run :: "KeyValue list \<Rightarrow> rstate \<Rightarrow> outcome \<times> event list" where
  "reducer_run [] st = reducer_exit st"
| "reducer_run (mkv # kvs) st =
     (case reducer_body st mkv of
        Inl x \<Rightarrow> x
      | Inr st' \<Rightarrow> reducer_run kvs st')"

text \<open>The reduceKey and sortKey arguments of the \<open>go\<close> statements of a trace, in order.\<close>

fun go_keys :: "event list \<Rightarrow> (string \<times> string) list" where
  "go_keys [] = []"
| "go_keys (Go rk sk c d # tr) = (rk, sk) # go_keys tr"
| "go_keys (e # tr) = go_keys tr"

text \<open>
  The groups the claims speak of: the maximal runs of consecutive records with the same
  reduceKey, each as its first record and the records that follow it in the run.
\<close>

function group_by_key :: "KeyValue list \<Rightarrow> (KeyValue \<times> KeyValue list) list" where
  "group_by_key [] = []"
| "group_by_key (kv # kvs) =
     (kv, takeWhile (\<lambda>x. ReduceKey x = ReduceKey kv) kvs)
       # group_by_key (dropWhile (\<lambda>x. ReduceKey x = ReduceKey kv) kvs)"
  by pat_completeness auto
termination
  by (relation "measure length") (auto simp: length_dropWhile_le less_Suc_eq_le)

text \<open>The trace of a run that returns, written out group by group from channel \<open>n\<close> on.\<close>

fun group_events :: "nat \<Rightarrow> (KeyValue \<times> KeyValue list) list \<Rightarrow> event list" where
  "group_events n [] = []"
| "group_events n ((kv, rest) # gs) =
     Go (ReduceKey kv) (SortKey kv) n (n + 1) # map (\<lambda>x. Send n (Value x)) (kv # rest)
       @ [Close n, Recv (n + 1)] @ group_events (n + 2) gs"

section \<open>Mode selection in \<open>Main\<close>\<close>

text \<open>
  The three mode flags are package variables set by the flag parser. \<open>Main\<close> is modelled by
  the sequence of its top-level effects; \<open>os.Exit\<close> ends the process, so nothing follows an
  \<open>Exit\<close>.
\<close>

record flags =
  optDoMap :: bool
  optDoReduce :: bool
  optDoMapReduce :: bool

datatype main_event =
    RunMapReduce
  | Println string
  | Exit int
  | RunMapper
  | RunMapperFinal
  | RunReducer
  | Flush

definition Main :: "flags \<Rightarrow> main_event list" where
  "Main f =
     (if optDoMapReduce f then [RunMapReduce]
      else if optDoMap f \<and> optDoReduce f
        then [Println ''can either map or reduce, not both. (Did  you mean --mapreduce ?)'', Exit 1]
      else if \<not> optDoMap f \<and> \<not> optDoReduce f
        then [Println ''neither map nor reduce nor secondary key reduce called'', Exit 1]
      else (if optDoMap f then [RunMapper, RunMapperFinal] else [])
           @ (if optDoReduce f then [RunReducer] else [])
           @ [Flush])"

fun is_config_error :: "main_event list \<Rightarrow> bool" where
  "is_config_error [Println msg, Exit code] = (code \<noteq> 0)"
| "is_config_error evs = False"

definition runs_work :: "main_event list \<Rightarrow> bool" where
  "runs_work evs = (RunMapReduce \<in> set evs \<or> RunMapper \<in> set evs \<or> RunMapperFinal \<in> set evs
                     \<or> RunReducer \<in> set evs)"

section \<open>A mapper worker of the full pipeline\<close>

text \<open>
  One worker goroutine of \<open>mapreduce\<close>, over the work items it receives from the queue, in
  order, and a file system that gives the content of a file that can be opened. For each
  item the worker opens the file and runs \<open>mapper\<close> on it; when \<open>os.Open\<close> fails it prints
  the error and returns. \<open>wg.Done()\<close> stands after the loop.
\<close>

datatype worker_event =
    LogOpenError string
  | MapperRun nat "(string \<times> string) list"
  | WgDone

fun mapper_worker :: "(string \<Rightarrow> string option) \<Rightarrow> (nat \<times> string) list \<Rightarrow> worker_event list" where
  "mapper_worker fs [] = [WgDone]"
| "mapper_worker fs ((index, fname) # inputs) =
     (case fs fname of
        None \<Rightarrow> [LogOpenError fname]
      | Some content \<Rightarrow> MapperRun index (mapper content) # mapper_worker fs inputs)"

definition run_of :: "(string \<Rightarrow> string option) \<Rightarrow> nat \<times> string \<Rightarrow> worker_event" where
  "run_of fs x = MapperRun (fst x) (mapper (the (fs (snd x))))"

section \<open>\<open>TSVProtocol.MarshalKV\<close>\<close>

text \<open>
  The values that reach \<open>MarshalKV\<close> through \<open>interface{}\<close>, by what reflection shows of
  them. \<open>VNil\<close> is the nil interface, for which \<open>reflect.TypeOf\<close> returns nil and
  \<open>reflect.ValueOf\<close> the zero \<open>Value\<close> of kind \<open>Invalid\<close>. \<open>VInt\<close> and \<open>VUint\<close> stand for the
  signed and unsigned integer kinds of every width, \<open>VFloat\<close> for both float kinds, and
  \<open>VOther k\<close> for a value of any other kind \<open>k\<close>. \<open>strconv.FormatFloat(x, 'g', 5, 64)\<close> is
  the parameter \<open>fmt\<close>. \<open>Kind\<close> gives the number of the \<open>reflect.Kind\<close>, which
  \<open>primitiveToString\<close> prints in its last case.
\<close>

datatype 'f go_value =
    VNil
  | VBool bool
  | VInt int
  | VUint nat
  | VFloat 'f
  | VString string
  | VStruct "'f go_value list"
  | VArray "'f go_value list"
  | VSlice "'f go_value list"
  | VOther nat

datatype go_panic = NilDereference

function FormatUint :: "nat \<Rightarrow> string" where
  "FormatUint n =
     (if n < 10 then [''0123456789'' ! n]
      else FormatUint (n div 10) @ [''0123456789'' ! (n mod 10)])"
  by pat_completeness auto
termination
  by (relation "measure id") auto

declare FormatUint.simps [simp del]

definition FormatInt :: "int \<Rightarrow> string" where
  "FormatInt i = (if i < 0 then CHR ''-'' # FormatUint (nat (- i)) else FormatUint (nat i))"

fun Kind :: "'f go_value \<Rightarrow> nat" where
  "Kind VNil = 0"
| "Kind (VBool b) = 1"
| "Kind (VInt i) = 2"
| "Kind (VUint n) = 7"
| "Kind (VFloat x) = 14"
| "Kind (VArray xs) = 17"
| "Kind (VSlice xs) = 23"
| "Kind (VString s) = 24"
| "Kind (VStruct flds) = 25"
| "Kind (VOther k) = k"

abbreviation Array :: nat where "Array \<equiv> 17"
abbreviation Slice :: nat where "Slice \<equiv> 23"
abbreviation Struct :: nat where "Struct \<equiv> 25"

definition isPrimitive :: "nat \<Rightarrow> bool" where
  "isPrimitive k = (k \<in> {1, 2, 3, 4, 5, 6, 7, 8, 9, 10, 11, 13, 14, 24})"

fun items :: "'f go_value \<Rightarrow> 'f go_value list" where
  "items (VStruct flds) = flds"
| "items (VArray elems) = elems"
| "items (VSlice elems) = elems"
| "items v = []"

fun primitiveToString :: "('f \<Rightarrow> string) \<Rightarrow> 'f go_value \<Rightarrow> string" where
  "primitiveToString fmt (VBool b) = (if b then ''1'' else ''0'')"
| "primitiveToString fmt (VInt i) = FormatInt i"
| "primitiveToString fmt (VUint n) = FormatUint n"
| "primitiveToString fmt (VFloat x) = fmt x"
| "primitiveToString fmt (VString s) = s"
| "primitiveToString fmt v = ''(unknown type '' @ [char_of (Kind v)] @ '')''"

fun Join :: "string list \<Rightarrow> string \<Rightarrow> string" where
  "Join [] sep = []"
| "Join [x] sep = x"
| "Join (x # xs) sep = x @ sep @ Join xs sep"

definition MarshalKV ::
  "('f \<Rightarrow> string) \<Rightarrow> 'f go_value \<Rightarrow> 'f go_value \<Rightarrow> 'f go_value \<Rightarrow> go_panic + KeyValue" where
  "MarshalKV fmt reduceKey sortKey v =
     (if v = VNil then Inl NilDereference
      else
        (let vs = (if Kind v = Struct then map (primitiveToString fmt) (items v)
                   else if isPrimitive (Kind v) then [primitiveToString fmt v]
                   else if Kind v = Array \<or> Kind v = Slice
                     then map (primitiveToString fmt) (items v)
                   else []);
             vals = Join vs [TAB];
             r = primitiveToString fmt reduceKey;
             s = primitiveToString fmt reduceKey
         in Inr \<lparr>ReduceKey = r, SortKey = s, Value = vals\<rparr>))"

text \<open>A stream of complete lines: empty, or ending in a newline.\<close>

definition ends_nl :: "string \<Rightarrow> bool" where
  "ends_nl s = (s = [] \<or> last s = NL)"

section \<open>The reduce driver and its goroutines, step by step\<close>

text \<open>
  To speak of what is active at the same time, the driver and the goroutines it launches
  are also modelled as one system that a scheduler moves one step at a time. The driver
  executes the statements of \<open>reducer\<close> in order (\<open>dpc\<close> is its position); the decoded
  record \<open>mkv\<close> of the iteration travels with the position. Its variables and its trace
  are the \<open>rstate\<close> of the model above, changed by the same functions. Channels are numbered
  as \<open>make\<close> creates them; a \<open>values\<close> channel has its buffer of at most 64 strings, every
  channel its closed flag.

  The closure of a \<open>go\<close> statement refers to the variables \<open>values\<close> and \<open>done\<close> of
  \<open>reducer\<close>, not to the channels they held at the \<open>go\<close> statement, and to the \<open>mkv\<close> of
  its own iteration. A goroutine is \<open>Launched\<close>; it starts by reading \<open>values\<close> and calling
  \<open>Reduce\<close> (\<open>InReduce\<close>, where the job may take values from its stream and may return);
  after the return it reads \<open>done\<close> and blocks in \<open>done <- true\<close> (\<open>Sending\<close>) until the
  driver receives; then it is about to run \<open>close(done)\<close>, which reads \<open>done\<close> again
  (\<open>Closing\<close>); then it is \<open>Finished\<close>.

  A step that cannot be taken in a state (a blocked send or receive, a goroutine that is
  somewhere else) gives \<open>None\<close>. A panic stops the whole program, and the model ends when
  \<open>reducer\<close> has returned.
\<close>

datatype dpc =
    ReadNext
  | CloseOld KeyValue
  | AwaitOld KeyValue
  | StartNew KeyValue
  | SendValue KeyValue
  | CloseLast
  | AwaitLast
  | Exited

datatype gpc =
    Launched
  | InReduce "nat option"
  | Sending "nat option"
  | Closing
  | Finished

record goroutine =
  g_reduceKey :: string
  g_sortKey :: string
  g_pc :: gpc

record system =
  pc :: dpc
  reader :: string
  vars :: rstate
  buffer :: "nat \<Rightarrow> string list"
  is_closed :: "nat \<Rightarrow> bool"
  procs :: "goroutine list"
  panicked :: "string option"

definition initial :: "string \<Rightarrow> system" where
  "initial r = \<lparr>pc = ReadNext, reader = r, vars = reducer_init,
                 buffer = (\<lambda>c. []), is_closed = (\<lambda>c. False), procs = [], panicked = None\<rparr>"

definition driver_close :: "dpc \<Rightarrow> system \<Rightarrow> system option" where
  "driver_close next s =
     (case (values_chan (vars s), close_values (vars s)) of
        (Some c, Inr st) \<Rightarrow>
          if is_closed s c then Some (s\<lparr>panicked := Some ''close of closed channel''\<rparr>)
          else Some (s\<lparr>vars := st, is_closed := (is_closed s)(c := True), pc := next\<rparr>)
      | _ \<Rightarrow> Some (s\<lparr>panicked := Some ''close of nil channel''\<rparr>))"

definition driver_recv :: "dpc \<Rightarrow> system \<Rightarrow> system option" where
  "driver_recv next s =
     (case (done_chan (vars s), await_done (vars s)) of
        (Some d, Inr st) \<Rightarrow> if is_closed s d then Some (s\<lparr>vars := st, pc := next\<rparr>) else None
      | _ \<Rightarrow> None)"

definition driver_send :: "KeyValue \<Rightarrow> system \<Rightarrow> system option" where
  "driver_send mkv s =
     (case (values_chan (vars s), send_value (vars s) (Value mkv)) of
        (Some c, Inr st) \<Rightarrow>
          if is_closed s c then Some (s\<lparr>panicked := Some ''send on closed channel''\<rparr>)
          else if length (buffer s c) < 64
            then Some (s\<lparr>vars := st, buffer := (buffer s)(c := buffer s c @ [Value mkv]),
                         pc := ReadNext\<rparr>)
          else None
      | _ \<Rightarrow> None)"

definition driver_step :: "system \<Rightarrow> system option" where
  "driver_step s =
     (case pc s of
        ReadNext \<Rightarrow>
          (case readLineKeyValue (reader s) of
             (Inl err, br') \<Rightarrow> Some (s\<lparr>reader := br', pc := CloseLast\<rparr>)
           | (Inr mkv, br') \<Rightarrow>
               Some (s\<lparr>reader := br',
                       pc := (if currentReduceKey (vars s) \<noteq> ReduceKey mkv \<or> isFirstRun (vars s)
                              then (if \<not> isFirstRun (vars s) then CloseOld mkv else StartNew mkv)
                              else SendValue mkv)\<rparr>))
      | CloseOld mkv \<Rightarrow> driver_close (AwaitOld mkv) s
      | AwaitOld mkv \<Rightarrow> driver_recv (StartNew mkv) s
      | StartNew mkv \<Rightarrow>
          Some (s\<lparr>vars := start_group (vars s) mkv,
                  procs := procs s @ [\<lparr>g_reduceKey = ReduceKey mkv, g_sortKey = SortKey mkv,
                                       g_pc = Launched\<rparr>],
                  pc := SendValue mkv\<rparr>)
      | SendValue mkv \<Rightarrow> driver_send mkv s
      | CloseLast \<Rightarrow> driver_close AwaitLast s
      | AwaitLast \<Rightarrow> driver_recv Exited s
      | Exited \<Rightarrow> None)"

datatype action = Driver | Start nat | Take nat | Return nat | Handoff nat | CloseDone nat

definition set_pc :: "nat \<Rightarrow> gpc \<Rightarrow> system \<Rightarrow> system" where
  "set_pc i p s = s\<lparr>procs := (procs s)[i := (procs s ! i)\<lparr>g_pc := p\<rparr>]\<rparr>"

definition at :: "system \<Rightarrow> nat \<Rightarrow> gpc option" where
  "at s i = (if i < length (procs s) then Some (g_pc (procs s ! i)) else None)"

definition after_recv :: "dpc \<Rightarrow> dpc option" where
  "after_recv p =
     (case p of AwaitOld mkv \<Rightarrow> Some (StartNew mkv) | AwaitLast \<Rightarrow> Some Exited | _ \<Rightarrow> None)"

definition goroutine_close :: "nat \<Rightarrow> system \<Rightarrow> system" where
  "goroutine_close i s =
     (case done_chan (vars s) of
        None \<Rightarrow> s\<lparr>panicked := Some ''close of nil channel''\<rparr>
      | Some d \<Rightarrow>
          if is_closed s d then s\<lparr>panicked := Some ''close of closed channel''\<rparr>
          else set_pc i Finished (s\<lparr>is_closed := (is_closed s)(d := True)\<rparr>))"

fun goroutine_step :: "action \<Rightarrow> system \<Rightarrow> system option" where
  "goroutine_step (Start i) s =
     (case at s i of
        Some Launched \<Rightarrow> Some (set_pc i (InReduce (values_chan (vars s))) s)
      | _ \<Rightarrow> None)"
| "goroutine_step (Take i) s =
     (case at s i of
        Some (InReduce (Some c)) \<Rightarrow>
          (if buffer s c \<noteq> [] then Some (s\<lparr>buffer := (buffer s)(c := tl (buffer s c))\<rparr>)
           else if is_closed s c then Some s
           else None)
      | _ \<Rightarrow> None)"
| "goroutine_step (Return i) s =
     (case at s i of
        Some (InReduce ch) \<Rightarrow> Some (set_pc i (Sending (done_chan (vars s))) s)
      | _ \<Rightarrow> None)"
| "goroutine_step (Handoff i) s =
     (case at s i of
        Some (Sending (Some d)) \<Rightarrow>
          (if is_closed s d then Some (s\<lparr>panicked := Some ''send on closed channel''\<rparr>)
           else (case (after_recv (pc s), await_done (vars s)) of
                   (Some p, Inr st) \<Rightarrow>
                     if done_chan (vars s) = Some d
                     then Some ((set_pc i Closing s)\<lparr>vars := st, pc := p\<rparr>)
                     else None
                 | _ \<Rightarrow> None))
      | _ \<Rightarrow> None)"
| "goroutine_step (CloseDone i) s =
     (case at s i of
        Some Closing \<Rightarrow> Some (goroutine_close i s)
      | _ \<Rightarrow> None)"
| "goroutine_step Driver s = driver_step s"

definition step :: "action \<Rightarrow> system \<Rightarrow> system option" where
  "step a s = (if panicked s \<noteq> None \<or> pc s = Exited then None else goroutine_step a s)"

fun run :: "action list \<Rightarrow> system \<Rightarrow> system option" where
  "run [] s = Some s"
| "run (a # as) s = (case step a s of None \<Rightarrow> None | Some s' \<Rightarrow> run as s')"

definition in_reduce :: "goroutine \<Rightarrow> bool" where
  "in_reduce g = (case g_pc g of InReduce ch \<Rightarrow> True | _ \<Rightarrow> False)"

definition active :: "system \<Rightarrow> (string \<times> string) list" where
  "active s = map (\<lambda>g. (g_reduceKey g, g_sortKey g)) (filter in_reduce (procs s))"

text \<open>The number of \<open>Reduce\<close> invocations active at once, at its highest along a schedule.\<close>

fun peak :: "action list \<Rightarrow> system \<Rightarrow> nat option" where
  "peak [] s = Some (length (active s))"
| "peak (a # as) s =
     (case step a s of
        None \<Rightarrow> None
      | Some s' \<Rightarrow> map_option (max (length (active s))) (peak as s'))"

text \<open>
  A stream of three groups and two schedules for it. In \<open>orderly\<close> every goroutine closes
  its \<open>done\<close> channel before the driver goes on. In \<open>racy\<close> the goroutine of the first group
  runs \<open>close(done)\<close> after the driver has made the channels of the second group.
\<close>

definition abc :: string where
  "abc = ''a'' @ TAB # ''1'' @ NL # ''b'' @ TAB # ''2'' @ NL # ''c'' @ TAB # ''3'' @ [NL]"

definition racy :: "action list" where
  "racy = [Driver, Driver, Driver, Driver, Driver, Start 0, Take 0, Return 0, Handoff 0,
           Driver, CloseDone 0, Driver, Start 1, Driver, Driver, Driver, Driver, Start 2]"

definition orderly :: "action list" where
  "orderly = [Driver, Driver, Driver, Driver, Driver, Start 0, Take 0, Return 0, Handoff 0, CloseDone 0,
           Driver, Driver, Driver, Driver, Start 1, Take 1, Return 1, Handoff 1, CloseDone 1,
           Driver, Driver, Driver, Driver, Start 2, Take 2, Return 2, Handoff 2]"

text \<open>
  Three more executions in which the goroutine of the first group closes the \<open>done\<close>
  channel of the second. In \<open>draining_panic\<close>, over the stream \<open>six\<close> with reduceKeys
  a, a, b, b, b, c, every \<open>Reduce\<close> takes all values of its stream and then returns. In
  \<open>stolen_stream\<close> the goroutine of the second group starts after the driver has made the
  channels of the third. In \<open>early_exit\<close> the driver goes on to the end of the stream before
  the goroutine of the second group starts.
\<close>

definition six :: string where
  "six = ''a'' @ TAB # ''1'' @ NL # ''a'' @ TAB # ''2'' @ NL # ''b'' @ TAB # ''3'' @ NL #
         ''b'' @ TAB # ''4'' @ NL # ''b'' @ TAB # ''5'' @ NL # ''c'' @ TAB # ''6'' @ [NL]"

definition draining_panic :: "action list" where
  "draining_panic =
     [Driver, Driver, Driver, Driver, Driver, Driver, Driver,
      Start 0, Take 0, Take 0, Take 0, Return 0, Handoff 0,
      Driver, CloseDone 0,
      Driver, Start 1, Driver, Driver, Driver, Driver, Driver, Driver,
      Take 1, Take 1, Take 1, Take 1, Return 1, Handoff 1]"

definition stolen_stream :: "action list" where
  "stolen_stream =
     [Driver, Driver, Driver, Driver, Driver, Start 0, Take 0, Return 0, Handoff 0,
      Driver, CloseDone 0,
      Driver, Driver, Driver, Driver, Driver, Start 1, Driver]"

definition early_exit :: "action list" where
  "early_exit =
     [Driver, Driver, Driver, Driver, Driver, Start 0, Take 0, Return 0, Handoff 0,
      Driver, CloseDone 0,
      Driver, Driver, Driver, Driver, Driver, Driver, Driver, Driver,
      Start 1, Return 1, Handoff 1]"

definition goroutine_pcs :: "system \<Rightarrow> (string \<times> gpc) list" where
  "goroutine_pcs s = map (\<lambda>g. (g_reduceKey g, g_pc g)) (procs s)"

text \<open>
  What the driver of the first model still does from a position of the step-by-step model:
  the rest of the loop body for the record in hand, then the loop.
\<close>

definition after_start :: "KeyValue \<Rightarrow> string \<Rightarrow> rstate \<Rightarrow> outcome \<times> event list" where
  "after_start mkv br st =
     (case send_value st (Value mkv) of
        Inl x \<Rightarrow> x
      | Inr st' \<Rightarrow> reducer_loop br st')"

fun rest_of_run :: "dpc \<Rightarrow> string \<Rightarrow> rstate \<Rightarrow> outcome \<times> event list" where
  "rest_of_run ReadNext br st = reducer_loop br st"
| "rest_of_run (CloseOld mkv) br st =
     (case close_group st of
        Inl x \<Rightarrow> x
      | Inr st' \<Rightarrow> after_start mkv br (start_group st' mkv))"
| "rest_of_run (AwaitOld mkv) br st =
     (case await_done st of
        Inl x \<Rightarrow> x
      | Inr st' \<Rightarrow> after_start mkv br (start_group st' mkv))"
| "rest_of_run (StartNew mkv) br st = after_start mkv br (start_group st mkv)"
| "rest_of_run (SendValue mkv) br st = after_start mkv br st"
| "rest_of_run CloseLast br st = reducer_exit st"
| "rest_of_run AwaitLast br st =
     (case await_done st of
        Inl x \<Rightarrow> x
      | Inr st' \<Rightarrow> (Returned, trace st'))"
| "rest_of_run Exited br st = (Returned, trace st)"

text \<open>The arguments a launched goroutine passes to \<open>Reduce\<close>, for all goroutines in launch order.\<close>

definition goroutine_keys :: "system \<Rightarrow> (string \<times> string) list" where
  "goroutine_keys s = map (\<lambda>g. (g_reduceKey g, g_sortKey g)) (procs s)"

section \<open>Properties of the codec\<close>

lemma nibble_cases:
  "n < 16 \<Longrightarrow> n \<in> {0, 1, 2, 3, 4, 5, 6, 7, 8, 9, 10, 11, 12, 13, 14, 15::nat}"
  unfolding insert_iff empty_iff by arith

lemma unhex_hexdigit: "n < 16 \<Longrightarrow> unhex (hexdigit n) = n"
  by (drule nibble_cases) (auto simp: unhex_def hexdigit_def)

lemma ishex_hexdigit: "n < 16 \<Longrightarrow> ishex (hexdigit n)"
  by (drule nibble_cases) (auto simp: ishex_def hexdigit_def)

lemma of_char_nat_less: "(of_char c :: nat) < 256"
  by (metis of_char_mod_256 mod_less_divisor zero_less_numeral)

lemma hi_nibble: "(of_char c :: nat) div 16 < 16"
  using of_char_nat_less [of c] by arith

lemma plain_hexdigit: "n < 16 \<Longrightarrow> plain (hexdigit n)"
  by (drule nibble_cases) (auto simp: plain_def hexdigit_def)

lemma unreserved_plain: "unreserved c \<Longrightarrow> plain c \<and> c \<noteq> CHR ''%''"
  by (auto simp: unreserved_def plain_def Let_def)

lemma plain_percent_encode_byte: "x \<in> set (percent_encode_byte c) \<Longrightarrow> plain x"
  by (auto simp: percent_encode_byte_def plain_hexdigit hi_nibble unreserved_plain split: if_splits)
    (simp add: plain_def)

lemma plain_percent_encode: "x \<in> set (percent_encode s) \<Longrightarrow> plain x"
  by (auto simp: percent_encode_def plain_percent_encode_byte)

lemma check_encode_byte:
  "unescape_check (percent_encode_byte c @ rest) = unescape_check rest"
  by (simp add: percent_encode_byte_def unreserved_plain ishex_hexdigit hi_nibble)

lemma decode_encode_byte:
  "unescape_decode (percent_encode_byte c @ rest) = c # unescape_decode rest"
  using unreserved_plain [of c]
  by (simp add: percent_encode_byte_def unhex_hexdigit hi_nibble plain_def)

lemma check_percent_encode: "unescape_check (percent_encode s) = None"
  by (induction s) (simp_all add: percent_encode_def check_encode_byte)

lemma decode_percent_encode: "unescape_decode (percent_encode s) = s"
  by (induction s) (simp_all add: percent_encode_def decode_encode_byte)

lemma QueryUnescape_percent_encode: "QueryUnescape (percent_encode s) = Inr s"
  by (simp add: QueryUnescape_def check_percent_encode decode_percent_encode)

lemma takeWhile_until: "d \<notin> set xs \<Longrightarrow> takeWhile (\<lambda>c. c \<noteq> d) (xs @ d # ys) = xs"
  by (induction xs) auto

lemma dropWhile_until: "d \<notin> set xs \<Longrightarrow> dropWhile (\<lambda>c. c \<noteq> d) (xs @ d # ys) = d # ys"
  by (induction xs) auto

lemma ReadString_found:
  "delim \<notin> set xs \<Longrightarrow> ReadString delim (xs @ delim # ys) = (xs @ [delim], None, ys)"
  by (simp add: ReadString_def takeWhile_until dropWhile_until)

lemma TrimRight_delim:
  "delim \<notin> set xs \<Longrightarrow> TrimRight (xs @ [delim]) [delim] = xs"
  by (cases xs rule: rev_cases) (auto simp: TrimRight_def)

lemma SplitN2_none: "sep \<notin> set xs \<Longrightarrow> SplitN2 xs sep = [xs]"
  by (simp add: SplitN2_def)

lemma SplitN2_found: "sep \<notin> set xs \<Longrightarrow> SplitN2 (xs @ sep # ys) sep = [xs, ys]"
  by (simp add: SplitN2_def takeWhile_until dropWhile_until)

lemma percent_encode_no_tab: "TAB \<notin> set (percent_encode s)"
  using plain_percent_encode [of TAB s] by (auto simp: plain_def)

lemma percent_encode_no_comma: "CHR '','' \<notin> set (percent_encode s)"
  using plain_percent_encode [of "CHR '',''" s] by (auto simp: plain_def)

text \<open>What \<open>readLineKeyValue\<close> does on one well-formed line \<open>k<TAB>v<NL>\<close>.\<close>

lemma readLineKeyValue_line:
  assumes "TAB \<notin> set k" and "NL \<notin> set v"
  shows "readLineKeyValue (k @ TAB # v @ [NL]) =
     (let keys = SplitN2 k (CHR '','')
      in case QueryUnescape (keys ! 0) of
           Inl e \<Rightarrow> (Inl e, v @ [NL])
         | Inr reduceKey \<Rightarrow>
             (case (if length keys = 2 then QueryUnescape (keys ! 1) else Inr [])
              of Inl e \<Rightarrow> (Inl e, v @ [NL])
               | Inr sortKey \<Rightarrow>
                   (Inr \<lparr>ReduceKey = reduceKey, SortKey = sortKey, Value = v\<rparr>, [])))"
proof -
  have r2: "ReadString NL (v @ [NL]) = (v @ [NL], None, [])"
    using ReadString_found [OF assms(2), of "[]"] by simp
  show ?thesis
    by (simp add: readLineKeyValue_def ReadString_found [OF assms(1)] TrimRight_delim [OF assms(1)]
        r2 TrimRight_delim [OF assms(2)] Let_def split: sum.splits)
qed

text \<open>
  Claim C2. For all reduceKey, sortKey and value strings whose value is free of newlines
  (the keys may hold any byte: tabs, commas, percent signs), reading the line written by
  \<open>encodeKeyValueLine\<close> with \<open>readLineKeyValue\<close> gives back exactly the three strings and
  leaves the reader at its end.
\<close>

theorem encode_decode_roundtrip:
  assumes "NL \<notin> set v"
  shows "readLineKeyValue (encodeKeyValueLine reduceKey sortKey v)
           = (Inr \<lparr>ReduceKey = reduceKey, SortKey = sortKey, Value = v\<rparr>, [])"
proof (cases "sortKey = []")
  case True
  have "encodeKeyValueLine reduceKey sortKey v = percent_encode reduceKey @ TAB # v @ [NL]"
    using True by (simp add: encodeKeyValueLine_def)
  then show ?thesis
    using True
    by (simp add: readLineKeyValue_line [OF percent_encode_no_tab assms]
        SplitN2_none [OF percent_encode_no_comma] QueryUnescape_percent_encode)
next
  case False
  let ?k = "percent_encode reduceKey @ CHR '','' # percent_encode sortKey"
  have notab: "TAB \<notin> set ?k"
    by (simp add: percent_encode_no_tab)
  have line: "encodeKeyValueLine reduceKey sortKey v = ?k @ TAB # v @ [NL]"
    using False by (simp add: encodeKeyValueLine_def)
  show ?thesis
    unfolding line readLineKeyValue_line [OF notab assms]
      SplitN2_found [OF percent_encode_no_comma]
    by (simp add: QueryUnescape_percent_encode)
qed

theorem encode_decode_roundtrip_witness:
  "NL \<notin> set [CHR ''v'', TAB, CHR ''%'', CHR '','']
   \<and> readLineKeyValue (encodeKeyValueLine [CHR ''a'', TAB, CHR '','', CHR ''%'', CHR ''+'']
         ''x y'' [CHR ''v'', TAB, CHR ''%'', CHR '',''])
       = (Inr \<lparr>ReduceKey = [CHR ''a'', TAB, CHR '','', CHR ''%'', CHR ''+''], SortKey = ''x y'',
                Value = [CHR ''v'', TAB, CHR ''%'', CHR '','']\<rparr>, [])"
proof -
  have h: "NL \<notin> set [CHR ''v'', TAB, CHR ''%'', CHR '','']" by simp
  show ?thesis
    using h encode_decode_roundtrip [OF h, of "[CHR ''a'', TAB, CHR '','', CHR ''%'', CHR ''+'']" "''x y''"]
    by simp
qed

section \<open>Properties of the reduce driver\<close>

lemma reducer_loop_records: "reducer_loop br st = reducer_run (records br) st"
proof (induction br st rule: reducer_loop.induct)
  case (1 br st)
  show ?case
  proof (cases "readLineKeyValue br")
    case (Pair res br')
    show ?thesis
    proof (cases res)
      case (Inl e)
      with Pair show ?thesis
        by (subst reducer_loop.simps, subst records.simps) simp
    next
      case (Inr mkv)
      show ?thesis
      proof (cases "reducer_body st mkv")
        case (Inl x)
        with Pair Inr show ?thesis
          by (subst reducer_loop.simps, subst records.simps) simp
      next
        case st': (Inr st')
        have "reducer_loop br' st' = reducer_run (records br') st'"
          using "1.IH" [OF Pair [symmetric] Inr st'] .
        with Pair Inr st' show ?thesis
          by (subst reducer_loop.simps, subst records.simps) simp
      qed
    qed
  qed
qed

lemma in_group:
  assumes "\<not> isFirstRun st" "values_chan st = Some c" "done_chan st = Some d"
    "currentReduceKey st = k"
  shows "reducer_run kvs st =
     (Returned, trace st @ map (\<lambda>x. Send c (Value x)) (takeWhile (\<lambda>x. ReduceKey x = k) kvs)
        @ [Close c, Recv d]
        @ group_events (fresh st) (group_by_key (dropWhile (\<lambda>x. ReduceKey x = k) kvs)))"
  using assms
proof (induction kvs arbitrary: st c d k)
  case Nil
  then show ?case
    by (simp add: reducer_exit_def close_group_def close_values_def await_done_def)
next
  case (Cons kv kvs)
  show ?case
  proof (cases "ReduceKey kv = k")
    case True
    let ?st = "st\<lparr>trace := trace st @ [Send c (Value kv)]\<rparr>"
    have body: "reducer_body st kv = Inr ?st"
      using Cons.prems True by (simp add: reducer_body_def send_value_def)
    have "reducer_run kvs ?st = (Returned, trace ?st @ map (\<lambda>x. Send c (Value x)) (takeWhile (\<lambda>x. ReduceKey x = k) kvs)
        @ [Close c, Recv d]
        @ group_events (fresh ?st) (group_by_key (dropWhile (\<lambda>x. ReduceKey x = k) kvs)))"
      using Cons.prems by (intro Cons.IH) simp_all
    then show ?thesis
      using True by (simp add: body)
  next
    case False
    let ?n = "fresh st"
    let ?st = "st\<lparr>isFirstRun := False, values_chan := Some ?n, done_chan := Some (?n + 1),
                  fresh := ?n + 2,
                  trace := trace st @ [Close c, Recv d, Go (ReduceKey kv) (SortKey kv) ?n (?n + 1),
                                       Send ?n (Value kv)],
                  currentReduceKey := ReduceKey kv\<rparr>"
    have body: "reducer_body st kv = Inr ?st"
      using Cons.prems False
      by (simp add: reducer_body_def send_value_def close_group_def close_values_def
          await_done_def start_group_def Let_def)
    have "reducer_run kvs ?st = (Returned, trace ?st @ map (\<lambda>x. Send ?n (Value x)) (takeWhile (\<lambda>x. ReduceKey x = ReduceKey kv) kvs)
        @ [Close ?n, Recv (?n + 1)]
        @ group_events (fresh ?st) (group_by_key (dropWhile (\<lambda>x. ReduceKey x = ReduceKey kv) kvs)))"
      by (intro Cons.IH) simp_all
    then show ?thesis
      using False by (simp add: body)
  qed
qed

lemma reducer_run_init:
  "reducer_run kvs reducer_init =
     (if kvs = [] then (Panic ''close of nil channel'', [])
      else (Returned, group_events 0 (group_by_key kvs)))"
proof (cases kvs)
  case Nil
  then show ?thesis
    by (simp add: reducer_exit_def close_group_def close_values_def reducer_init_def)
next
  case (Cons kv rest)
  let ?st = "reducer_init\<lparr>isFirstRun := False, values_chan := Some 0, done_chan := Some 1,
                  fresh := 2,
                  trace := [Go (ReduceKey kv) (SortKey kv) 0 1, Send 0 (Value kv)],
                  currentReduceKey := ReduceKey kv\<rparr>"
  have body: "reducer_body reducer_init kv = Inr ?st"
    by (simp add: reducer_body_def send_value_def start_group_def Let_def reducer_init_def)
  have "reducer_run rest ?st = (Returned, trace ?st @ map (\<lambda>x. Send 0 (Value x)) (takeWhile (\<lambda>x. ReduceKey x = ReduceKey kv) rest)
        @ [Close 0, Recv 1]
        @ group_events (fresh ?st) (group_by_key (dropWhile (\<lambda>x. ReduceKey x = ReduceKey kv) rest)))"
    by (intro in_group) simp_all
  then show ?thesis
    using Cons by (simp add: body numeral_2_eq_2)
qed

lemma go_keys_append: "go_keys (a @ b) = go_keys a @ go_keys b"
  by (induction a rule: go_keys.induct) simp_all

lemma go_keys_sends: "go_keys (map (\<lambda>x. Send n (Value x)) xs) = []"
  by (induction xs) simp_all

lemma go_keys_group_events:
  "go_keys (group_events n gs) = map (\<lambda>g. (ReduceKey (fst g), SortKey (fst g))) gs"
  by (induction n gs rule: group_events.induct) (simp_all add: go_keys_append go_keys_sends)

lemma reducer_outcome:
  "fst (reducer inp) = (if records inp = [] then Panic ''close of nil channel'' else Returned)"
  by (simp add: reducer_def reducer_loop_records reducer_run_init)

lemma group_by_key_concat: "concat (map (\<lambda>g. fst g # snd g) (group_by_key kvs)) = kvs"
  by (induction kvs rule: group_by_key.induct) simp_all

lemma group_by_key_same_key:
  "g \<in> set (group_by_key kvs) \<Longrightarrow> x \<in> set (snd g) \<Longrightarrow> ReduceKey x = ReduceKey (fst g)"
  by (induction kvs rule: group_by_key.induct) (auto dest: set_takeWhileD)

lemma group_by_key_adjacent:
  "group_by_key kvs = g # h # gs \<Longrightarrow> ReduceKey (fst h) \<noteq> ReduceKey (fst g)"
proof (induction kvs rule: group_by_key.induct)
  case 1
  then show ?case by simp
next
  case (2 kv kvs)
  let ?rest = "dropWhile (\<lambda>x. ReduceKey x = ReduceKey kv) kvs"
  from "2.prems" have g: "fst g = kv" and h: "group_by_key ?rest = h # gs"
    by auto
  from h obtain y ys where rest: "?rest = y # ys"
    by (cases ?rest) auto
  then have "ReduceKey y \<noteq> ReduceKey kv"
    using hd_dropWhile [of "\<lambda>x. ReduceKey x = ReduceKey kv" kvs] by auto
  moreover from h rest have "fst h = y" by auto
  ultimately show ?case using g by simp
qed

lemma reducer_trace:
  "snd (reducer inp) = group_events 0 (group_by_key (records inp))"
  by (simp add: reducer_def reducer_loop_records reducer_run_init)


text \<open>
  Claim C5 states that the driver ends normally on an empty stream. The code does not:
  the loop is left at the first read, \<open>values\<close> is still nil, and the unguarded
  \<open>close(values)\<close> after the loop panics.
\<close>

theorem reducer_empty_input_panics:
  "reducer [] = (Panic ''close of nil channel'', [])"
  by (simp add: reducer_def reducer_loop.simps readLineKeyValue_def ReadString_def
      reducer_exit_def close_group_def close_values_def reducer_init_def)

section \<open>Properties of \<open>Main\<close>, of the mapper worker and of \<open>MarshalKV\<close>\<close>

text \<open>
  Claim C6 as stated fails: with the full-pipeline flag selected together with both the
  mapper and the reducer flag, \<open>Main\<close> runs the pipeline and reports no error.
\<close>

theorem Main_both_flags_with_mapreduce:
  "optDoMap \<lparr>optDoMap = True, optDoReduce = True, optDoMapReduce = True\<rparr>
   \<and> optDoReduce \<lparr>optDoMap = True, optDoReduce = True, optDoMapReduce = True\<rparr>
   \<and> Main \<lparr>optDoMap = True, optDoReduce = True, optDoMapReduce = True\<rparr> = [RunMapReduce]
   \<and> \<not> is_config_error (Main \<lparr>optDoMap = True, optDoReduce = True, optDoMapReduce = True\<rparr>)
   \<and> runs_work (Main \<lparr>optDoMap = True, optDoReduce = True, optDoMapReduce = True\<rparr>)"
  by (simp add: Main_def runs_work_def)

text \<open>
  Claim C6, amended. When the full-pipeline flag is selected, \<open>Main\<close> runs the full
  pipeline, whatever the other two flags are. When it is not selected and the mapper and
  reducer flags are both selected or both not selected, \<open>Main\<close> prints a message and exits
  with status 1 without running any map or reduce work.
\<close>

theorem Main_mode_check:
  "(optDoMapReduce f \<longrightarrow> Main f = [RunMapReduce])
   \<and> (\<not> optDoMapReduce f \<and> optDoMap f = optDoReduce f
        \<longrightarrow> is_config_error (Main f) \<and> \<not> runs_work (Main f) \<and> last (Main f) = Exit 1)"
  by (auto simp: Main_def runs_work_def)

theorem Main_mode_check_witness:
  "Main \<lparr>optDoMap = True, optDoReduce = True, optDoMapReduce = True\<rparr> = [RunMapReduce]
   \<and> is_config_error (Main \<lparr>optDoMap = True, optDoReduce = True, optDoMapReduce = False\<rparr>)
   \<and> \<not> runs_work (Main \<lparr>optDoMap = True, optDoReduce = True, optDoMapReduce = False\<rparr>)
   \<and> is_config_error (Main \<lparr>optDoMap = False, optDoReduce = False, optDoMapReduce = False\<rparr>)
   \<and> \<not> runs_work (Main \<lparr>optDoMap = False, optDoReduce = False, optDoMapReduce = False\<rparr>)"
  using Main_mode_check [of "\<lparr>optDoMap = True, optDoReduce = True, optDoMapReduce = True\<rparr>"]
    Main_mode_check [of "\<lparr>optDoMap = True, optDoReduce = True, optDoMapReduce = False\<rparr>"]
    Main_mode_check [of "\<lparr>optDoMap = False, optDoReduce = False, optDoMapReduce = False\<rparr>"]
  by simp

text \<open>
  Claim C8. When a worker cannot open a file of its queue, it logs the error and returns:
  it has run \<open>mapper\<close> on the items before that file only, the items after it are left
  alone, and it never signals \<open>wg.Done()\<close>.
\<close>

theorem mapper_worker_open_failure:
  assumes "list_all (\<lambda>x. fs (snd x) \<noteq> None) before" and "fs fname = None"
  shows "mapper_worker fs (before @ (index, fname) # remaining)
           = map (run_of fs) before @ [LogOpenError fname]
         \<and> WgDone \<notin> set (mapper_worker fs (before @ (index, fname) # remaining))"
proof -
  have "mapper_worker fs (before @ (index, fname) # remaining)
           = map (run_of fs) before @ [LogOpenError fname]"
    using assms by (induction before) (auto simp: run_of_def)
  then show ?thesis by (auto simp: run_of_def)
qed

theorem mapper_worker_open_failure_witness:
  "list_all (\<lambda>x. [''in0'' \<mapsto> ''l1''] (snd x) \<noteq> None) [(0::nat, ''in0'')]
   \<and> [''in0'' \<mapsto> ''l1''] ''gone'' = None
   \<and> mapper_worker [''in0'' \<mapsto> ''l1''] ([(0, ''in0'')] @ (1, ''gone'') # [(2, ''in0'')])
       = map (run_of [''in0'' \<mapsto> ''l1'']) [(0, ''in0'')] @ [LogOpenError ''gone'']
   \<and> WgDone \<notin> set (mapper_worker [''in0'' \<mapsto> ''l1'']
                        ([(0, ''in0'')] @ (1, ''gone'') # [(2, ''in0'')]))"
proof -
  have h1: "list_all (\<lambda>x. [''in0'' \<mapsto> ''l1''] (snd x) \<noteq> None) [(0::nat, ''in0'')]"
    by simp
  have h2: "[''in0'' \<mapsto> ''l1''] ''gone'' = None"
    by simp
  show ?thesis
    by (rule conjI [OF h1 conjI [OF h2 mapper_worker_open_failure [OF h1 h2, of 1 "[(2, ''in0'')]"]]])
qed

text \<open>A worker whose files all open ends with \<open>wg.Done()\<close>.\<close>

lemma mapper_worker_all_open:
  "list_all (\<lambda>x. fs (snd x) \<noteq> None) inputs \<Longrightarrow>
     mapper_worker fs inputs = map (run_of fs) inputs @ [WgDone]"
  by (induction inputs) (auto simp: run_of_def)


text \<open>
  Claim C9 as stated fails for the nil value: \<open>reflect.TypeOf(nil)\<close> is nil and the call
  of \<open>Kind\<close> on it panics, so \<open>MarshalKV\<close> returns no \<open>KeyValue\<close>.
\<close>

theorem MarshalKV_nil_value_panics:
  "MarshalKV (\<lambda>u::unit. []) (VString ''k'') (VString ''s'') VNil = Inl NilDereference"
  by (simp add: MarshalKV_def)

text \<open>
  Claim C9, amended. For every reduceKey and sortKey argument and every value argument
  other than nil, \<open>MarshalKV\<close> returns a \<open>KeyValue\<close> whose \<open>SortKey\<close> is the string form of
  the reduceKey argument; for every value the sortKey argument has no influence on what
  \<open>MarshalKV\<close> does; and for the nil value, whatever the keys, \<open>MarshalKV\<close> panics and
  returns nothing.
\<close>

theorem MarshalKV_sortkey_is_reducekey:
  "(v \<noteq> VNil \<longrightarrow>
      (\<exists>kv. MarshalKV fmt reduceKey sortKey v = Inr kv
         \<and> SortKey kv = primitiveToString fmt reduceKey))
   \<and> MarshalKV fmt reduceKey sortKey v = MarshalKV fmt reduceKey sortKey' v
   \<and> MarshalKV fmt reduceKey sortKey VNil = Inl NilDereference"
  by (simp add: MarshalKV_def Let_def)

theorem MarshalKV_sortkey_is_reducekey_witness:
  "VInt 5 \<noteq> (VNil :: unit go_value)
   \<and> (\<exists>kv. MarshalKV (\<lambda>u::unit. []) (VString ''k'') (VString ''s'') (VInt 5) = Inr kv
         \<and> SortKey kv = ''k'')"
proof -
  have h: "VInt 5 \<noteq> (VNil :: unit go_value)" by simp
  from MarshalKV_sortkey_is_reducekey [of "VInt 5" "\<lambda>u::unit. []" "VString ''k''" "VString ''s''"] h
  have "\<exists>kv. MarshalKV (\<lambda>u::unit. []) (VString ''k'') (VString ''s'') (VInt 5) = Inr kv
         \<and> SortKey kv = primitiveToString (\<lambda>u::unit. []) (VString ''k'')"
    by blast
  then show ?thesis using h by simp
qed

section \<open>A final line without its newline\<close>

lemma dropWhile_last:
  assumes "dropWhile P s = x # r" and "r \<noteq> []"
  shows "last r = last s"
proof -
  have "s = takeWhile P s @ x # r"
    using assms(1) takeWhile_dropWhile_id [of P s] by simp
  then have "last s = last (takeWhile P s @ x # r)" by simp
  also have "\<dots> = last r" using assms(2) by simp
  finally show ?thesis by simp
qed

lemma dropWhile_only:
  assumes "dropWhile P s = [x]"
  shows "last s = x"
proof -
  have "s = takeWhile P s @ [x]"
    using assms takeWhile_dropWhile_id [of P s] by simp
  then have "last s = last (takeWhile P s @ [x])" by simp
  then show ?thesis by simp
qed

lemma dropWhile_delim:
  assumes "d \<in> set s"
  shows "dropWhile (\<lambda>c. c \<noteq> d) s = d # tl (dropWhile (\<lambda>c. c \<noteq> d) s)"
proof -
  have ne: "dropWhile (\<lambda>c. c \<noteq> d) s \<noteq> []"
    using assms by (simp add: dropWhile_eq_Nil_conv)
  then have "hd (dropWhile (\<lambda>c. c \<noteq> d) s) = d"
    using hd_dropWhile [of "\<lambda>c. c \<noteq> d" s] by simp
  with ne show ?thesis
    by (cases "dropWhile (\<lambda>c. c \<noteq> d) s") auto
qed

lemma rest_has_nl:
  assumes "d \<in> set s" and "last s = NL" and "d \<noteq> NL"
  shows "NL \<in> set (tl (dropWhile (\<lambda>c. c \<noteq> d) s))"
proof -
  let ?r = "tl (dropWhile (\<lambda>c. c \<noteq> d) s)"
  have dw: "dropWhile (\<lambda>c. c \<noteq> d) s = d # ?r"
    by (rule dropWhile_delim [OF assms(1)])
  have "?r \<noteq> []"
  proof
    assume "?r = []"
    with dw have "last s = d" by (simp add: dropWhile_only)
    with assms(2,3) show False by simp
  qed
  moreover from this have "last ?r = NL"
    using dropWhile_last [OF dw] assms(2) by simp
  ultimately show ?thesis
    using last_in_set [of ?r] by metis
qed

lemma rest_ends_nl:
  assumes "d \<in> set s" and "ends_nl s"
  shows "ends_nl (tl (dropWhile (\<lambda>c. c \<noteq> d) s))"
proof (cases "tl (dropWhile (\<lambda>c. c \<noteq> d) s) = []")
  case True
  then show ?thesis by (simp add: ends_nl_def)
next
  case False
  have "s \<noteq> []" using assms(1) by auto
  with assms(2) have "last s = NL" by (simp add: ends_nl_def)
  then show ?thesis
    using dropWhile_last [OF dropWhile_delim [OF assms(1)] False] by (simp add: ends_nl_def)
qed

lemma ReadString_append:
  assumes "d \<in> set s"
  shows "ReadString d (s @ p) =
     (takeWhile (\<lambda>c. c \<noteq> d) s @ [d], None, tl (dropWhile (\<lambda>c. c \<noteq> d) s) @ p)"
proof -
  have "takeWhile (\<lambda>c. c \<noteq> d) (s @ p) = takeWhile (\<lambda>c. c \<noteq> d) s"
    using assms by (intro takeWhile_append1) auto
  moreover have "dropWhile (\<lambda>c. c \<noteq> d) (s @ p) = dropWhile (\<lambda>c. c \<noteq> d) s @ p"
    using assms by (intro dropWhile_append1) auto
  moreover have "dropWhile (\<lambda>c. c \<noteq> d) s \<noteq> []"
    using assms by (simp add: dropWhile_eq_Nil_conv)
  ultimately show ?thesis
    using assms by (simp add: ReadString_def)
qed

lemma ReadString_here:
  assumes "d \<in> set s"
  shows "ReadString d s =
     (takeWhile (\<lambda>c. c \<noteq> d) s @ [d], None, tl (dropWhile (\<lambda>c. c \<noteq> d) s))"
  using assms by (simp add: ReadString_def)

lemma ReadString_eof: "d \<notin> set s \<Longrightarrow> ReadString d s = (s, Some EOF, [])"
  by (simp add: ReadString_def)

lemma set_tl_dropWhile: "x \<in> set (tl (dropWhile P xs)) \<Longrightarrow> x \<in> set xs"
  by (metis list.set_sel(2) set_dropWhileD tl_Nil)

text \<open>\<open>readLineValue\<close> and the loop of \<open>mapper\<close> on a stream with a partial last line.\<close>

lemma readLineValue_partial: "NL \<notin> set p \<Longrightarrow> readLineValue p = (Inl EOF, [])"
  by (simp add: readLineValue_def ReadString_eof)

lemma readLineValue_append:
  assumes "NL \<in> set s"
  shows "readLineValue (s @ p) = (fst (readLineValue s), snd (readLineValue s) @ p)"
  by (simp add: readLineValue_def ReadString_append [OF assms] ReadString_here [OF assms])

lemma readLineValue_rest:
  assumes "NL \<in> set s" and "ends_nl s"
  shows "ends_nl (snd (readLineValue s))"
  using rest_ends_nl [OF assms] by (simp add: readLineValue_def ReadString_here [OF assms(1)])

lemma mapper_loop_partial:
  assumes "NL \<notin> set p"
  shows "ends_nl s \<Longrightarrow> mapper_loop (s @ p) calls = mapper_loop s calls"
proof (induction s calls rule: mapper_loop.induct)
  case (1 br calls)
  show ?case
  proof (cases "NL \<in> set br")
    case False
    with "1.prems" have "br = []"
      by (cases br rule: rev_cases) (auto simp: ends_nl_def)
    then show ?thesis
      using assms by (simp add: mapper_loop.simps [of p] mapper_loop.simps [of "[]"] readLineValue_partial)
  next
    case True
    obtain res br' where r: "readLineValue br = (res, br')"
      by (cases "readLineValue br") auto
    have app: "readLineValue (br @ p) = (res, br' @ p)"
      using readLineValue_append [OF True, of p] r by simp
    have e: "ends_nl br'"
      using readLineValue_rest [OF True "1.prems"] r by simp
    show ?thesis
    proof (cases res)
      case (Inl err)
      then show ?thesis
        using r app by (simp add: mapper_loop.simps [of "br @ p"] mapper_loop.simps [of br])
    next
      case (Inr kv)
      have "mapper_loop (br' @ p) (calls @ [([], Value kv)]) = mapper_loop br' (calls @ [([], Value kv)])"
        using "1.IH" [OF r [symmetric] Inr e] .
      then show ?thesis
        using r app Inr by (simp add: mapper_loop.simps [of "br @ p"] mapper_loop.simps [of br])
    qed
  qed
qed


text \<open>\<open>readLineKeyValue\<close> and the records of a stream with a partial last line.\<close>

lemma readLineKeyValue_no_newline:
  assumes "NL \<notin> set (tl (dropWhile (\<lambda>c. c \<noteq> TAB) x))"
  shows "\<exists>e r. readLineKeyValue x = (Inl e, r)"
proof (cases "TAB \<in> set x")
  case False
  then show ?thesis
    by (simp add: readLineKeyValue_def ReadString_eof)
next
  case True
  show ?thesis
    using assms
    by (simp add: readLineKeyValue_def ReadString_here [OF True] ReadString_eof Let_def
        split: sum.splits)
qed

lemma readLineKeyValue_partial:
  assumes "NL \<notin> set p"
  shows "\<exists>e r. readLineKeyValue p = (Inl e, r)"
  using assms set_tl_dropWhile [of NL "\<lambda>c. c \<noteq> TAB" p]
  by (intro readLineKeyValue_no_newline) auto

lemma readLineKeyValue_append:
  assumes "TAB \<in> set s" and "NL \<in> set (tl (dropWhile (\<lambda>c. c \<noteq> TAB) s))"
  shows "readLineKeyValue (s @ p) = (fst (readLineKeyValue s), snd (readLineKeyValue s) @ p)"
  by (simp add: readLineKeyValue_def ReadString_append [OF assms(1)] ReadString_here [OF assms(1)]
      ReadString_append [OF assms(2)] ReadString_here [OF assms(2)] Let_def split: sum.splits)

lemma readLineKeyValue_rest:
  assumes "readLineKeyValue s = (Inr kv, r)" and "ends_nl s"
  shows "ends_nl r"
proof -
  let ?r1 = "tl (dropWhile (\<lambda>c. c \<noteq> TAB) s)"
  have tab: "TAB \<in> set s"
    using assms(1) by (auto simp: readLineKeyValue_def ReadString_def split: if_splits)
  have nl: "NL \<in> set ?r1"
    using assms(1) readLineKeyValue_no_newline [of s] by auto
  have r: "r = tl (dropWhile (\<lambda>c. c \<noteq> NL) ?r1)"
    using assms(1)
    by (simp add: readLineKeyValue_def ReadString_here [OF tab] ReadString_here [OF nl] Let_def
        split: sum.splits)
  have "ends_nl ?r1"
    by (rule rest_ends_nl [OF tab assms(2)])
  then show ?thesis
    unfolding r by (rule rest_ends_nl [OF nl])
qed

lemma records_partial:
  assumes "NL \<notin> set p"
  shows "ends_nl s \<Longrightarrow> records (s @ p) = records s"
proof (induction s rule: records.induct)
  case (1 br)
  let ?r1 = "tl (dropWhile (\<lambda>c. c \<noteq> TAB) br)"
  show ?case
  proof (cases "TAB \<in> set br")
    case False
    have "dropWhile (\<lambda>c. c \<noteq> TAB) (br @ p) = dropWhile (\<lambda>c. c \<noteq> TAB) p"
      using False by (intro dropWhile_append2) auto
    then have "NL \<notin> set (tl (dropWhile (\<lambda>c. c \<noteq> TAB) (br @ p)))"
      using assms set_tl_dropWhile [of NL "\<lambda>c. c \<noteq> TAB" p] by auto
    then obtain e r where a: "readLineKeyValue (br @ p) = (Inl e, r)"
      using readLineKeyValue_no_newline by blast
    have b: "readLineKeyValue br = (Inl EOF, [])"
      using False by (simp add: readLineKeyValue_def ReadString_eof)
    show ?thesis
      by (simp add: records.simps [of "br @ p"] records.simps [of br] a b)
  next
    case True
    then have "br \<noteq> []" by auto
    with "1.prems" have "last br = NL" by (simp add: ends_nl_def)
    then have nl: "NL \<in> set ?r1"
      using rest_has_nl [OF True] by simp
    obtain res br' where r: "readLineKeyValue br = (res, br')"
      by (cases "readLineKeyValue br") auto
    have app: "readLineKeyValue (br @ p) = (res, br' @ p)"
      using readLineKeyValue_append [OF True nl, of p] r by simp
    show ?thesis
    proof (cases res)
      case (Inl err)
      then show ?thesis
        using r app by (simp add: records.simps [of "br @ p"] records.simps [of br])
    next
      case (Inr kv)
      have "ends_nl br'"
        using readLineKeyValue_rest [of br kv br'] r Inr "1.prems" by simp
      then have "records (br' @ p) = records br'"
        using "1.IH" [OF r [symmetric] Inr] by simp
      then show ?thesis
        using r app Inr by (simp add: records.simps [of "br @ p"] records.simps [of br])
    qed
  qed
qed

text \<open>
  Claim C10. Let a stream consist of complete lines \<open>s\<close> followed by a last line \<open>p\<close> that
  has no newline. Both readers return an error on \<open>p\<close>, and both drivers behave on the
  stream exactly as on \<open>s\<close> alone: \<open>mapper\<close> makes the same \<open>Map\<close> calls, \<open>reducer\<close> sees the
  same records and has the same outcome and trace. Nothing of \<open>p\<close> reaches \<open>Map\<close> or a
  value stream.
\<close>

theorem unterminated_final_line_discarded:
  assumes "NL \<notin> set p" and "s = [] \<or> last s = NL"
  shows "fst (readLineValue p) = Inl EOF
    \<and> isl (fst (readLineKeyValue p))
    \<and> mapper (s @ p) = mapper s
    \<and> records (s @ p) = records s
    \<and> reducer (s @ p) = reducer s"
proof -
  have e: "ends_nl s" using assms(2) by (simp add: ends_nl_def)
  have "isl (fst (readLineKeyValue p))"
    using readLineKeyValue_partial [OF assms(1)] by auto
  moreover have "records (s @ p) = records s"
    by (rule records_partial [OF assms(1) e])
  moreover from this have "reducer (s @ p) = reducer s"
    by (simp add: reducer_def reducer_loop_records)
  ultimately show ?thesis
    by (simp add: readLineValue_partial [OF assms(1)] mapper_def mapper_loop_partial [OF assms(1) e])
qed

theorem unterminated_final_line_discarded_witness:
  "NL \<notin> set ''b,x''
   \<and> ([CHR ''a'', TAB, CHR ''1'', NL] = [] \<or> last [CHR ''a'', TAB, CHR ''1'', NL] = NL)
   \<and> fst (readLineValue ''b,x'') = Inl EOF
   \<and> isl (fst (readLineKeyValue ''b,x''))
   \<and> mapper ([CHR ''a'', TAB, CHR ''1'', NL] @ ''b,x'') = mapper [CHR ''a'', TAB, CHR ''1'', NL]
   \<and> records ([CHR ''a'', TAB, CHR ''1'', NL] @ ''b,x'') = records [CHR ''a'', TAB, CHR ''1'', NL]
   \<and> reducer ([CHR ''a'', TAB, CHR ''1'', NL] @ ''b,x'') = reducer [CHR ''a'', TAB, CHR ''1'', NL]"
proof -
  have h1: "NL \<notin> set ''b,x''" by simp
  have h2: "[CHR ''a'', TAB, CHR ''1'', NL] = [] \<or> last [CHR ''a'', TAB, CHR ''1'', NL] = NL"
    by simp
  show ?thesis
    by (rule conjI [OF h1 conjI [OF h2 unterminated_final_line_discarded [OF h1 h2]]])
qed

section \<open>Overlap of \<open>Reduce\<close> invocations\<close>

text \<open>
  Claim C4 states that at most one \<open>Reduce\<close> invocation is active at any time, because the
  driver waits for the invocation in flight before it starts the next group. The code
  does not ensure it. After \<open>done <- true\<close> the goroutine of a group still has to run
  \<open>close(done)\<close>, and the driver, released by that very send, assigns a new channel to
  \<open>done\<close> for the next group. When the assignment comes first, the goroutine closes the
  channel of the next group; the driver's next \<open>\<langle>-done\<close> then returns at once, without
  any wait. In the schedule \<open>racy\<close> no step panics, and at its end the invocations for
  \<open>b\<close> and for \<open>c\<close> are both inside \<open>Reduce\<close>.
\<close>

theorem overlapping_reduce_invocations:
  "map_option (\<lambda>s. (panicked s, active s)) (run racy (initial abc))
     = Some (None, [(''b'', []), (''c'', [])])"
  by code_simp

text \<open>
  Along \<open>racy\<close> two invocations are active at once; along \<open>orderly\<close> never more than one,
  and the driver returns with the trace of \<open>reducer\<close>.
\<close>

lemma racy_peak: "peak racy (initial abc) = Some 2"
  by code_simp

lemma orderly_peak: "peak orderly (initial abc) = Some 1"
  by code_simp

lemma orderly_run_exits:
  "map_option (\<lambda>s. (pc s, panicked s, active s, trace (vars s))) (run orderly (initial abc))
     = Some (Exited, None, [], snd (reducer abc))"
  by code_simp


section \<open>The driver in every schedule\<close>

text \<open>
  Whatever the scheduler does, the driver of the step-by-step model does what \<open>reducer\<close>
  does: its trace is at every moment a beginning of the trace of \<open>reducer\<close>, and the whole
  of it once the driver has returned. The goroutines it has launched pass to \<open>Reduce\<close> the
  keys of the first record of their groups.
\<close>

lemma close_values_grows:
  "close_values st = Inr st' \<Longrightarrow> prefix (trace st) (trace st')"
  "close_values st = Inl x \<Longrightarrow> snd x = trace st"
  by (auto simp: close_values_def split: option.splits)

lemma await_done_grows:
  "await_done st = Inr st' \<Longrightarrow> prefix (trace st) (trace st')"
  "await_done st = Inl x \<Longrightarrow> snd x = trace st"
  by (auto simp: await_done_def split: option.splits)

lemma send_value_grows:
  "send_value st v = Inr st' \<Longrightarrow> prefix (trace st) (trace st')"
  "send_value st v = Inl x \<Longrightarrow> snd x = trace st"
  by (auto simp: send_value_def split: option.splits)

lemma start_group_grows: "prefix (trace st) (trace (start_group st mkv))"
  by (simp add: start_group_def Let_def)

lemma close_group_grows:
  "close_group st = Inr st' \<Longrightarrow> prefix (trace st) (trace st')"
  "close_group st = Inl x \<Longrightarrow> prefix (trace st) (snd x)"
  by (auto simp: close_group_def split: sum.splits
      dest!: close_values_grows await_done_grows intro: prefix_order.trans)

lemma reducer_body_grows:
  "reducer_body st mkv = Inr st' \<Longrightarrow> prefix (trace st) (trace st')"
  "reducer_body st mkv = Inl x \<Longrightarrow> prefix (trace st) (snd x)"
  using start_group_grows [of st mkv]
  by (auto simp: reducer_body_def split: sum.splits if_splits
      dest!: close_group_grows send_value_grows
      intro: prefix_order.trans [OF _ start_group_grows] prefix_order.trans)

lemma reducer_exit_grows: "prefix (trace st) (snd (reducer_exit st))"
  by (auto simp: reducer_exit_def split: sum.splits dest!: close_group_grows)

lemma reducer_loop_grows: "prefix (trace st) (snd (reducer_loop br st))"
proof (induction br st rule: reducer_loop.induct)
  case (1 br st)
  show ?case
  proof (cases "readLineKeyValue br")
    case (Pair res br')
    show ?thesis
    proof (cases res)
      case (Inl e)
      with Pair show ?thesis
        by (simp add: reducer_loop.simps [of br] reducer_exit_grows)
    next
      case (Inr mkv)
      show ?thesis
      proof (cases "reducer_body st mkv")
        case (Inl x)
        with Pair Inr show ?thesis
          by (simp add: reducer_loop.simps [of br] reducer_body_grows(2))
      next
        case st': (Inr st')
        have "prefix (trace st') (snd (reducer_loop br' st'))"
          using "1.IH" [OF Pair [symmetric] Inr st'] .
        moreover have "prefix (trace st) (trace st')"
          by (rule reducer_body_grows(1) [OF st'])
        ultimately show ?thesis
          using Pair Inr st' by (simp add: reducer_loop.simps [of br])
      qed
    qed
  qed
qed


lemma after_start_grows: "prefix (trace st) (snd (after_start mkv br st))"
  by (auto simp: after_start_def split: sum.splits dest!: send_value_grows
      intro: prefix_order.trans [OF _ reducer_loop_grows])

lemma rest_of_run_grows: "prefix (trace st) (snd (rest_of_run p br st))"
proof (cases p)
  case ReadNext
  then show ?thesis by (simp add: reducer_loop_grows)
next
  case (CloseOld mkv)
  then show ?thesis
    by (auto split: sum.splits dest!: close_group_grows
        intro: prefix_order.trans [OF _ after_start_grows]
               prefix_order.trans [OF _ start_group_grows])
next
  case (AwaitOld mkv)
  then show ?thesis
    by (auto split: sum.splits dest!: await_done_grows
        intro: prefix_order.trans [OF _ after_start_grows]
               prefix_order.trans [OF _ start_group_grows])
next
  case (StartNew mkv)
  then show ?thesis
    by (auto intro: prefix_order.trans [OF start_group_grows after_start_grows])
next
  case (SendValue mkv)
  then show ?thesis by (simp add: after_start_grows)
next
  case CloseLast
  then show ?thesis by (simp add: reducer_exit_grows)
next
  case AwaitLast
  then show ?thesis by (auto split: sum.splits dest!: await_done_grows)
next
  case Exited
  then show ?thesis by simp
qed


lemma set_pc_fields [simp]:
  "pc (set_pc i p s) = pc s" "reader (set_pc i p s) = reader s" "vars (set_pc i p s) = vars s"
  "panicked (set_pc i p s) = panicked s"
  by (simp_all add: set_pc_def)

lemma driver_step_rest:
  assumes "driver_step s = Some s'" and "panicked s = None" and "panicked s' = None"
  shows "rest_of_run (pc s') (reader s') (vars s') = rest_of_run (pc s) (reader s) (vars s)"
proof (cases "pc s")
  case ReadNext
  obtain res br' where r: "readLineKeyValue (reader s) = (res, br')"
    by (cases "readLineKeyValue (reader s)") auto
  show ?thesis
  proof (cases res)
    case (Inl e)
    with assms r ReadNext show ?thesis
      by (auto simp: driver_step_def reducer_loop.simps [of "reader s"])
  next
    case (Inr mkv)
    with assms r ReadNext show ?thesis
      by (auto simp: driver_step_def reducer_loop.simps [of "reader s"] reducer_body_def
          after_start_def split: sum.splits)
  qed
next
  case (CloseOld mkv)
  with assms show ?thesis
    by (auto simp: driver_step_def driver_close_def close_group_def
        split: option.splits sum.splits if_splits)
next
  case (AwaitOld mkv)
  with assms show ?thesis
    by (auto simp: driver_step_def driver_recv_def split: option.splits sum.splits if_splits)
next
  case (StartNew mkv)
  with assms show ?thesis
    by (auto simp: driver_step_def)
next
  case (SendValue mkv)
  with assms show ?thesis
    by (auto simp: driver_step_def driver_send_def after_start_def
        split: option.splits sum.splits if_splits)
next
  case CloseLast
  with assms show ?thesis
    by (auto simp: driver_step_def driver_close_def reducer_exit_def close_group_def
        split: option.splits sum.splits if_splits)
next
  case AwaitLast
  with assms show ?thesis
    by (auto simp: driver_step_def driver_recv_def split: option.splits sum.splits if_splits)
next
  case Exited
  with assms show ?thesis
    by (simp add: driver_step_def)
qed

lemma driver_step_panic:
  assumes "driver_step s = Some s'" and "panicked s = None" and "panicked s' \<noteq> None"
  shows "vars s' = vars s"
  using assms
  by (cases "pc s")
    (auto simp: driver_step_def driver_close_def driver_recv_def driver_send_def
      split: option.splits sum.splits if_splits prod.splits)

lemma step_rest:
  assumes "step a s = Some s'" and "panicked s' = None"
  shows "rest_of_run (pc s') (reader s') (vars s') = rest_of_run (pc s) (reader s) (vars s)"
proof -
  from assms(1) have np: "panicked s = None" and g: "goroutine_step a s = Some s'"
    by (auto simp: step_def split: if_splits)
  show ?thesis
  proof (cases a)
    case Driver
    with g np assms(2) show ?thesis by (simp add: driver_step_rest)
  next
    case (Start i)
    with g show ?thesis by (auto split: option.splits gpc.splits)
  next
    case (Take i)
    with g show ?thesis by (auto split: option.splits gpc.splits if_splits)
  next
    case (Return i)
    with g show ?thesis by (auto split: option.splits gpc.splits)
  next
    case (Handoff i)
    with g assms(2) show ?thesis
      by (auto simp: after_recv_def split: option.splits gpc.splits if_splits sum.splits dpc.splits)
  next
    case (CloseDone i)
    with g assms(2) show ?thesis
      by (auto simp: goroutine_close_def split: option.splits gpc.splits if_splits)
  qed
qed

lemma step_panic:
  assumes "step a s = Some s'" and "panicked s' \<noteq> None"
  shows "vars s' = vars s"
proof -
  from assms(1) have np: "panicked s = None" and g: "goroutine_step a s = Some s'"
    by (auto simp: step_def split: if_splits)
  show ?thesis
  proof (cases a)
    case Driver
    with g np assms(2) show ?thesis by (simp add: driver_step_panic)
  next
    case (Start i)
    with g assms(2) np show ?thesis by (auto split: option.splits gpc.splits)
  next
    case (Take i)
    with g assms(2) np show ?thesis by (auto split: option.splits gpc.splits if_splits)
  next
    case (Return i)
    with g assms(2) np show ?thesis by (auto split: option.splits gpc.splits)
  next
    case (Handoff i)
    with g assms(2) np show ?thesis
      by (auto simp: after_recv_def split: option.splits gpc.splits if_splits sum.splits dpc.splits)
  next
    case (CloseDone i)
    with g assms(2) np show ?thesis
      by (auto simp: goroutine_close_def split: option.splits gpc.splits if_splits)
  qed
qed

lemma run_invariant:
  assumes "run sch s0 = Some s"
    and "prefix (trace (vars s0)) (snd final)"
    and "panicked s0 = None \<longrightarrow> rest_of_run (pc s0) (reader s0) (vars s0) = final"
  shows "prefix (trace (vars s)) (snd final)
      \<and> (panicked s = None \<longrightarrow> rest_of_run (pc s) (reader s) (vars s) = final)"
  using assms
proof (induction sch arbitrary: s0)
  case Nil
  then show ?case by simp
next
  case (Cons a sch)
  from Cons.prems(1) obtain s1 where s1: "step a s0 = Some s1" and rest: "run sch s1 = Some s"
    by (auto split: option.splits)
  from s1 have np: "panicked s0 = None"
    by (auto simp: step_def split: if_splits)
  show ?case
  proof (cases "panicked s1 = None")
    case True
    have eq: "rest_of_run (pc s1) (reader s1) (vars s1) = final"
      using step_rest [OF s1 True] Cons.prems(3) np by simp
    moreover have "prefix (trace (vars s1)) (snd (rest_of_run (pc s1) (reader s1) (vars s1)))"
      by (rule rest_of_run_grows)
    ultimately show ?thesis
      using Cons.IH [OF rest] by simp
  next
    case False
    then have "vars s1 = vars s0"
      using step_panic [OF s1] by simp
    then show ?thesis
      using Cons.IH [OF rest] Cons.prems(2) False by simp
  qed
qed

lemma driver_trace_prefix:
  assumes "run sch (initial inp) = Some s"
  shows "prefix (trace (vars s)) (snd (reducer inp))"
  using run_invariant [OF assms, of "reducer inp"]
  by (simp add: initial_def reducer_def reducer_init_def)

lemma driver_exit_trace:
  assumes "run sch (initial inp) = Some s" and "pc s = Exited" and "panicked s = None"
  shows "reducer inp = (Returned, trace (vars s))"
  using run_invariant [OF assms(1), of "reducer inp"] assms(2,3)
  by (simp add: initial_def reducer_def reducer_init_def)

lemma goroutine_keys_set_pc [simp]:
  "i < length (procs s) \<Longrightarrow> goroutine_keys (set_pc i p s) = goroutine_keys s"
  by (simp add: goroutine_keys_def set_pc_def map_update list_update_same_conv)

lemma goroutine_keys_fields [simp]:
  "goroutine_keys (s\<lparr>vars := v\<rparr>) = goroutine_keys s"
  "goroutine_keys (s\<lparr>pc := p\<rparr>) = goroutine_keys s"
  "goroutine_keys (s\<lparr>reader := r\<rparr>) = goroutine_keys s"
  "goroutine_keys (s\<lparr>buffer := b\<rparr>) = goroutine_keys s"
  "goroutine_keys (s\<lparr>is_closed := cl\<rparr>) = goroutine_keys s"
  "goroutine_keys (s\<lparr>panicked := pa\<rparr>) = goroutine_keys s"
  by (simp_all add: goroutine_keys_def)

lemma go_keys_Recv [simp]: "go_keys (tr @ [Recv d]) = go_keys tr"
  by (simp add: go_keys_append)

lemma step_goroutine_keys:
  assumes "step a s = Some s'"
    and "goroutine_keys s = go_keys (trace (vars s))"
  shows "goroutine_keys s' = go_keys (trace (vars s'))"
proof -
  from assms(1) have g: "goroutine_step a s = Some s'"
    by (auto simp: step_def split: if_splits)
  show ?thesis
  proof (cases a)
    case Driver
    with g assms(2) show ?thesis
      by (cases "pc s")
        (auto simp: driver_step_def driver_close_def driver_recv_def driver_send_def
          close_values_def await_done_def send_value_def start_group_def Let_def
          goroutine_keys_def go_keys_append
          split: option.splits sum.splits if_splits prod.splits)
  next
    case (Start i)
    with g assms(2) show ?thesis
      by (auto simp: at_def split: option.splits gpc.splits if_splits)
  next
    case (Take i)
    with g assms(2) show ?thesis
      by (auto simp: at_def split: option.splits gpc.splits if_splits)
  next
    case (Return i)
    with g assms(2) show ?thesis
      by (auto simp: at_def split: option.splits gpc.splits if_splits)
  next
    case (Handoff i)
    with g assms(2) show ?thesis
      by (auto simp: at_def after_recv_def await_done_def
          split: option.splits gpc.splits if_splits sum.splits dpc.splits)
  next
    case (CloseDone i)
    with g assms(2) show ?thesis
      by (auto simp: at_def goroutine_close_def
          split: option.splits gpc.splits if_splits)
  qed
qed

lemma run_goroutine_keys:
  assumes "run sch s0 = Some s"
    and "goroutine_keys s0 = go_keys (trace (vars s0))"
  shows "goroutine_keys s = go_keys (trace (vars s))"
  using assms
proof (induction sch arbitrary: s0)
  case Nil
  then show ?case by simp
next
  case (Cons a sch)
  from Cons.prems(1) obtain s1 where s1: "step a s0 = Some s1" and rest: "run sch s1 = Some s"
    by (auto split: option.splits)
  show ?case
    by (rule Cons.IH [OF rest step_goroutine_keys [OF s1 Cons.prems(2)]])
qed

lemma go_keys_prefix: "prefix tr tr' \<Longrightarrow> prefix (go_keys tr) (go_keys tr')"
  by (auto simp: prefix_def go_keys_append)

text \<open>
  In every schedule the goroutines launched so far carry, in order, the reduceKey and the
  sortKey of the first record of the first groups of the stream: the arguments of a
  \<open>Reduce\<close> call never come from a later record.
\<close>

lemma goroutines_follow_groups:
  assumes "run sch (initial inp) = Some s"
  shows "prefix (goroutine_keys s)
           (map (\<lambda>g. (ReduceKey (fst g), SortKey (fst g))) (group_by_key (records inp)))"
proof -
  have "goroutine_keys s = go_keys (trace (vars s))"
    by (rule run_goroutine_keys [OF assms])
      (simp add: initial_def goroutine_keys_def reducer_init_def)
  moreover have "prefix (go_keys (trace (vars s))) (go_keys (snd (reducer inp)))"
    by (rule go_keys_prefix [OF driver_trace_prefix [OF assms]])
  ultimately show ?thesis
    by (simp add: reducer_trace go_keys_group_events)
qed

section \<open>What the race does to the grouping\<close>

lemma records_six:
  "map ReduceKey (records six) = [''a'', ''a'', ''b'', ''b'', ''b'', ''c'']"
  by code_simp

lemma records_abc:
  "map (\<lambda>kv. (ReduceKey kv, Value kv)) (records abc) = [(''a'', ''1''), (''b'', ''2''), (''c'', ''3'')]"
  by code_simp

text \<open>
  Claim C1 states that on a stream with the reduceKeys a, a, b, b, b, c the driver invokes
  \<open>Reduce\<close> exactly three times, with 2, 3 and 1 values, in the order a, b, c. The code
  does not ensure it. In the execution \<open>draining_panic\<close> over such a stream every \<open>Reduce\<close>
  takes all values of its stream before it returns. The goroutine of a closes the \<open>done\<close>
  channel made for b (the race of claim C4), so the \<open>done <- true\<close> of the goroutine of b is
  a send on a closed channel: the program panics when only the calls for a and b have been
  launched, and there is never a call for c.
\<close>

theorem six_records_two_launches_then_panic:
  "map ReduceKey (records six) = [''a'', ''a'', ''b'', ''b'', ''b'', ''c'']
   \<and> map_option (\<lambda>s. (panicked s, goroutine_pcs s)) (run draining_panic (initial six))
       = Some (Some ''send on closed channel'', [(''a'', Finished), (''b'', Sending (Some 3))])"
  by code_simp

text \<open>
  Claim C3 states that the values of a group reach the \<open>Reduce\<close> call of that group, none
  dropped and none delivered to another group. The code does not ensure it. In the
  execution \<open>stolen_stream\<close> the goroutine of b starts only after the driver, let through by
  the closed \<open>done\<close> channel, has assigned the channel of c to \<open>values\<close>: \<open>Reduce\<close> for b is
  called with channel 4, the stream of c. The value of b stays on channel 2, which no
  goroutine holds, and one more step hands the value of c to \<open>Reduce\<close> for b.
\<close>

theorem value_of_one_group_taken_by_another:
  "map_option (\<lambda>s. (panicked s, goroutine_pcs s, buffer s 2, buffer s 4))
       (run stolen_stream (initial abc))
     = Some (None, [(''a'', Finished), (''b'', InReduce (Some 4)), (''c'', Launched)],
             [''2''], [''3''])
   \<and> map_option (\<lambda>s. (panicked s, goroutine_pcs s, buffer s 2, buffer s 4))
       (run (stolen_stream @ [Take 1]) (initial abc))
     = Some (None, [(''a'', Finished), (''b'', InReduce (Some 4)), (''c'', Launched)],
             [''2''], [])"
  by code_simp

text \<open>
  Claim C7 states that \<open>Reduce\<close> is invoked exactly once for each group, with the sortKey
  of the first record of the group. The sortKey is right in every schedule
  (\<open>goroutines_follow_groups\<close> above). The count is not ensured. In the execution
  \<open>early_exit\<close> the last \<open>\<langle>-done\<close> of the driver receives the \<open>true\<close> that the goroutine of
  b sends on the \<open>done\<close> channel of c: \<open>reducer\<close> returns without a panic while the
  goroutine of c has not started, and \<open>Reduce\<close> has not been invoked for c.
\<close>

theorem driver_returns_before_last_reduce:
  "map_option (\<lambda>s. (pc s, panicked s, goroutine_pcs s)) (run early_exit (initial abc))
     = Some (Exited, None, [(''a'', Finished), (''b'', Closing), (''c'', Launched)])"
  by code_simp

end
